theory Spec2Isabelle
  imports Main "HOL-Library.Word" "HOL-Library.Monad_Syntax"
begin

section \<open>The Sloth verifiable delay function\<close>

text \<open>
  A shallow embedding of the Go package: the permutation engine (\<open>sigma\<close>, \<open>rho\<close>,
  their inverses, \<open>Tau\<close>, \<open>TauInverse\<close>), the facade (\<open>New\<close>, \<open>Compute\<close>,
  \<open>Verify\<close>) and the prime generator (\<open>GenerateSlothPrime\<close>).

  Conventions.
  \<^item> A non-nil \<open>*big.Int\<close> is an \<open>int\<close>; a pointer that the code tests against \<open>nil\<close>
    is an \<open>int option\<close>.
  \<^item> A \<open>[]byte\<close> is a \<open>byte list option\<close>, \<open>None\<close> being the nil slice.
  \<^item> An engine call returns \<open>'a option\<close>: \<open>None\<close> means that the call does not
    return normally (a run-time panic of \<open>math/big\<close>).
  \<^item> Go's \<open>error\<close> results are values of the datatype \<open>error\<close>.
\<close>

type_synonym byte = "8 word"
type_synonym int64 = "64 word"
type_synonym slice = "byte list option"

subsection \<open>The operations of \<open>math/big\<close> that the package calls\<close>

text \<open>\<open>z.Mod(x, y)\<close>: Euclidean modulus, a division-by-zero panic for \<open>y = 0\<close>.\<close>

definition big_Mod :: "int \<Rightarrow> int \<Rightarrow> int option" where
  "big_Mod x y = (if y = 0 then None else Some (x mod \<bar>y\<bar>))"

text \<open>\<open>x.Bit(0)\<close>: the lowest bit of the absolute value.\<close>

definition big_Bit0 :: "int \<Rightarrow> nat" where
  "big_Bit0 x = (if even x then 0 else 1)"

text \<open>
  \<open>z.Exp(x, y, m)\<close> is \<open>x ^ y mod |m|\<close>, and \<open>x ^ y\<close> when \<open>m = 0\<close>; for \<open>y \<le> 0\<close>
  and \<open>m = 0\<close> it is 1. A negative exponent with a non-zero modulus asks for a modular
  inverse; the package never does so (its exponents are 2 and \<open>(p + 1) / 4\<close> of a
  prime), and that case is left without a result here.
\<close>

definition big_Exp :: "int \<Rightarrow> int \<Rightarrow> int \<Rightarrow> int option" where
  "big_Exp x y m =
     (if m = 0 then Some (if y \<le> 0 then 1 else x ^ nat y)
      else if 0 \<le> y then Some ((x ^ nat y) mod \<bar>m\<bar>)
      else None)"

text \<open>
  \<open>big.Jacobi(x, y)\<close>: panics for an even \<open>y\<close>; otherwise the binary algorithm of the
  library. \<open>trailingZeroBits\<close> counts the factors of two of a positive number. In the
  library the denominator \<open>b\<close> of the loop is odd and positive throughout; the first
  test of \<open>jacobi_loop\<close> only makes the recursion total.
\<close>

fun trailingZeroBits :: "nat \<Rightarrow> nat" where
  "trailingZeroBits n = (if n = 0 \<or> odd n then 0 else Suc (trailingZeroBits (n div 2)))"

declare trailingZeroBits.simps [simp del]

function jacobi_loop :: "int \<Rightarrow> int \<Rightarrow> int \<Rightarrow> int" where
  "jacobi_loop a b j =
     (if b \<le> 0 then 0
      else if b = 1 then j
      else if a = 0 then 0
      else let a' = a mod b in
        if a' = 0 then 0
        else let s = trailingZeroBits (nat a');
                 j1 = (if odd s \<and> (b mod 8 = 3 \<or> b mod 8 = 5) then - j else j);
                 c = a' div 2 ^ s;
                 j2 = (if b mod 4 = 3 \<and> c mod 4 = 3 then - j1 else j1)
             in jacobi_loop b c j2)"
  by pat_completeness auto
termination
proof (relation "measure (\<lambda>(a, b, j). nat b)")
  show "wf (measure (\<lambda>(a, b, j). nat b))" by simp
next
  fix a b j :: int and a' :: int and s :: nat and j1 c j2 :: int
  assume b: "\<not> b \<le> 0" and a': "a' = a mod b" and c: "c = a' div 2 ^ s"
  have "0 \<le> a'" "a' < b" using b a' by simp_all
  moreover have "a' div 2 ^ s \<le> a'"
    using zdiv_mono2 [of a' 1 "2 ^ s"] \<open>0 \<le> a'\<close> by simp
  ultimately show "((b, c, j2), (a, b, j)) \<in> measure (\<lambda>(a, b, j). nat b)"
    using b c by simp
qed

declare jacobi_loop.simps [simp del]

definition big_Jacobi :: "int \<Rightarrow> int \<Rightarrow> int option" where
  "big_Jacobi x y =
     (if even y then None
      else Some (jacobi_loop x \<bar>y\<bar> (if y < 0 \<and> x < 0 then - 1 else 1)))"

text \<open>
  Primality of an integer, by trial division. \<open>x.ProbablyPrime(20)\<close> is idealised as
  this exact test (the library is exact below \<open>2 ^ 64\<close>; its error probability above is
  not modelled).
\<close>

definition is_prime :: "int \<Rightarrow> bool" where
  "is_prime x = (1 < x \<and> (\<forall>d \<in> {2..<x}. x mod d \<noteq> 0))"

definition ProbablyPrime :: "int \<Rightarrow> bool" where
  "ProbablyPrime x = is_prime x"

text \<open>\<open>x.BitLen()\<close>: the length of the absolute value in bits, 0 for 0.\<close>

fun nat_BitLen :: "nat \<Rightarrow> nat" where
  "nat_BitLen n = (if n = 0 then 0 else Suc (nat_BitLen (n div 2)))"

declare nat_BitLen.simps [simp del]

definition big_BitLen :: "int \<Rightarrow> int" where
  "big_BitLen x = int (nat_BitLen (nat \<bar>x\<bar>))"

text \<open>
  \<open>z.SetBytes(buf)\<close> reads a big-endian unsigned integer; \<open>x.Bytes()\<close> is the
  big-endian absolute value without leading zero bytes (empty for 0).
\<close>

definition big_SetBytes :: "byte list \<Rightarrow> int" where
  "big_SetBytes buf = foldl (\<lambda>acc b. acc * 256 + uint b) 0 buf"

fun nat_Bytes :: "nat \<Rightarrow> byte list" where
  "nat_Bytes n = (if n = 0 then [] else nat_Bytes (n div 256) @ [of_nat (n mod 256)])"

declare nat_Bytes.simps [simp del]

definition big_Bytes :: "int \<Rightarrow> byte list" where
  "big_Bytes x = nat_Bytes (nat \<bar>x\<bar>)"

subsection \<open>Errors, the hash capability and the instance\<close>

text \<open>
  One constructor for each error the package creates: the three of \<open>New\<close>, the six of
  \<open>Verify\<close>, and the wrapped failure of the random source in \<open>GenerateSlothPrime\<close>
  (with the message of the underlying error).
\<close>

datatype error =
    ErrIterationsNotPositive
  | ErrNotPrime
  | ErrNotCongruent
  | ErrNilInput
  | ErrNilHash
  | ErrNilWitness
  | ErrWitnessRange
  | ErrHashMismatch
  | ErrVerificationFailed
  | ErrCandidatePrime string

text \<open>
  The struct. \<open>HashFunc\<close> makes \<open>hash.Hash\<close> objects; it is represented by the digest
  function that those objects compute.
\<close>

record Sloth =
  P :: int
  Iterations :: int64
  HashFunc :: "byte list \<Rightarrow> byte list"
  sqrtExp :: int

text \<open>
  A \<open>hash.Hash\<close> object: its digest function and the bytes written since it was made or
  reset. \<open>Write\<close> of a nil slice writes nothing. \<open>Sum(nil)\<close> is the digest of the written
  bytes, a non-nil slice (the digest of a hash has positive length).
\<close>

record hasher =
  digest :: "byte list \<Rightarrow> byte list"
  written :: "byte list"

definition new_hasher :: "Sloth \<Rightarrow> hasher" where
  "new_hasher s = \<lparr>digest = HashFunc s, written = []\<rparr>"

definition hash_Write :: "hasher \<Rightarrow> slice \<Rightarrow> hasher" where
  "hash_Write h b = h\<lparr>written := written h @ (case b of None \<Rightarrow> [] | Some bs \<Rightarrow> bs)\<rparr>"

definition hash_Reset :: "hasher \<Rightarrow> hasher" where
  "hash_Reset h = h\<lparr>written := []\<rparr>"

definition hash_Sum :: "hasher \<Rightarrow> byte list" where
  "hash_Sum h = digest h (written h)"

subsection \<open>Construction\<close>

text \<open>
  \<open>New(p, iterations)\<close> for a non-nil \<open>p\<close>. The hash that the source fixes
  (\<open>sha256.New\<close>) is the first argument. The modulus and the division are by the package
  constant \<open>bigFour = 4\<close>, where Euclidean \<open>Mod\<close> and \<open>Div\<close> are \<open>mod\<close> and \<open>div\<close>
  and cannot panic.
\<close>

definition New :: "(byte list \<Rightarrow> byte list) \<Rightarrow> int \<Rightarrow> int64 \<Rightarrow> error + Sloth" where
  "New sha256 p iterations =
     (if sint iterations \<le> 0 then Inl ErrIterationsNotPositive
      else if \<not> ProbablyPrime p then Inl ErrNotPrime
      else if p mod 4 \<noteq> 3 then Inl ErrNotCongruent
      else let sqrtExp = (p + 1) div 4
           in Inr \<lparr>P = p, Iterations = iterations, HashFunc = sha256, sqrtExp = sqrtExp\<rparr>)"

subsection \<open>The permutation engine\<close>

definition sigma :: "Sloth \<Rightarrow> int \<Rightarrow> int option" where
  "sigma s x =
     (let res = (if big_Bit0 x = 0 then x - 1 else x + 1)
      in big_Mod res (P s))"

definition sigmaInverse :: "Sloth \<Rightarrow> int \<Rightarrow> int option" where
  "sigmaInverse s x = sigma s x"

definition rho :: "Sloth \<Rightarrow> int \<Rightarrow> int option" where
  "rho s x = do {
     jac \<leftarrow> big_Jacobi x (P s);
     valToRoot \<leftarrow> (if jac = 1 then Some x else big_Mod (- x) (P s));
     root \<leftarrow> big_Exp valToRoot (sqrtExp s) (P s);
     if big_Bit0 root = 0 then Some root else Some (P s - root)
   }"

text \<open>
  In the odd branch the source evaluates \<open>new(big.Int).Neg(ySquared).Mod(ySquared, s.P)\<close>:
  the fresh integer \<open>z\<close> first receives \<open>- ySquared\<close>, then \<open>z.Mod(ySquared, s.P)\<close>
  overwrites it with \<open>ySquared mod P\<close>; the arguments of \<open>Mod\<close> do not mention \<open>z\<close>.
\<close>

definition rhoInverse :: "Sloth \<Rightarrow> int \<Rightarrow> int option" where
  "rhoInverse s y = do {
     ySquared \<leftarrow> big_Exp y 2 (P s);
     if big_Bit0 y = 0 then Some ySquared
     else let z = - ySquared
          in big_Mod ySquared (P s)
   }"

definition Tau :: "Sloth \<Rightarrow> int \<Rightarrow> int option" where
  "Tau s x = sigma s x \<bind> rho s"

definition TauInverse :: "Sloth \<Rightarrow> int \<Rightarrow> int option" where
  "TauInverse s y = rhoInverse s y \<bind> sigmaInverse s"

subsection \<open>Compute and Verify\<close>

text \<open>
  The two loops \<open>for i := int64(0); i < s.Iterations; i++\<close>. Their bodies call
  \<open>s.tau\<close> and \<open>s.tauInverse\<close>; the methods that the file declares are \<open>Tau\<close> and
  \<open>TauInverse\<close>, and they are what the loops run here. The counter stays below
  \<open>Iterations\<close>, so that \<open>i++\<close> never wraps; it is an \<open>int\<close> here. The loop of \<open>Verify\<close>
  also counts the calls of \<open>TauInverse\<close> that it makes.
\<close>

function tau_loop :: "Sloth \<Rightarrow> int \<Rightarrow> int \<Rightarrow> int option" where
  "tau_loop s i w =
     (if i < sint (Iterations s)
      then (case Tau s w of None \<Rightarrow> None | Some w' \<Rightarrow> tau_loop s (i + 1) w')
      else Some w)"
  by pat_completeness auto
termination
  by (relation "measure (\<lambda>(s, i, w). nat (sint (Iterations s) - i))") auto

declare tau_loop.simps [simp del]

function tauInverse_loop :: "Sloth \<Rightarrow> int \<Rightarrow> int \<Rightarrow> nat \<Rightarrow> (int \<times> nat) option" where
  "tauInverse_loop s i wCheck calls =
     (if i < sint (Iterations s)
      then (case TauInverse s wCheck of None \<Rightarrow> None
            | Some w' \<Rightarrow> tauInverse_loop s (i + 1) w' (Suc calls))
      else Some (wCheck, calls))"
  by pat_completeness auto
termination
  by (relation "measure (\<lambda>(s, i, w, c). nat (sint (Iterations s) - i))") auto

declare tauInverse_loop.simps [simp del]

definition Compute :: "Sloth \<Rightarrow> slice \<Rightarrow> (slice \<times> int option \<times> error option) option" where
  "Compute s input = do {
     let hasher = hash_Write (new_hasher s) input;
     let uBytes = hash_Sum hasher;
     w0 \<leftarrow> big_Mod (big_SetBytes uBytes) (P s);
     w \<leftarrow> tau_loop s 0 w0;
     let witness = w;
     let hasher = hash_Write (hash_Reset hasher) (Some (big_Bytes witness));
     let hash = hash_Sum hasher;
     Some (Some hash, Some witness, None)
   }"

text \<open>
  \<open>Verify_run\<close> is \<open>Verify\<close> together with the number of \<open>TauInverse\<close> calls made;
  \<open>bytes.Equal\<close> compares contents.
\<close>

definition Verify_run ::
  "Sloth \<Rightarrow> slice \<Rightarrow> slice \<Rightarrow> int option \<Rightarrow> ((bool \<times> error option) \<times> nat) option" where
  "Verify_run s input hash witness =
     (case input of None \<Rightarrow> Some ((False, Some ErrNilInput), 0)
      | Some inp \<Rightarrow>
     (case hash of None \<Rightarrow> Some ((False, Some ErrNilHash), 0)
      | Some hsh \<Rightarrow>
     (case witness of None \<Rightarrow> Some ((False, Some ErrNilWitness), 0)
      | Some wit \<Rightarrow>
        if wit \<ge> P s \<or> wit < 0 then Some ((False, Some ErrWitnessRange), 0)
        else
          let hasher = hash_Write (new_hasher s) (Some (big_Bytes wit));
              expectedHash = hash_Sum hasher
          in if hsh \<noteq> expectedHash then Some ((False, Some ErrHashMismatch), 0)
             else do {
               (wCheck, calls) \<leftarrow> tauInverse_loop s 0 wit 0;
               let hasher = hash_Write (hash_Reset hasher) (Some inp);
               let uBytes = hash_Sum hasher;
               wStartExpected \<leftarrow> big_Mod (big_SetBytes uBytes) (P s);
               if wCheck = wStartExpected then Some ((True, None), calls)
               else Some ((False, Some ErrVerificationFailed), calls)
             })))"

definition Verify :: "Sloth \<Rightarrow> slice \<Rightarrow> slice \<Rightarrow> int option \<Rightarrow> (bool \<times> error option) option" where
  "Verify s input hash witness = map_option fst (Verify_run s input hash witness)"

text \<open>
  \<open>Verify\<close> rejects with error \<open>e\<close> before its loop: it returns \<open>(false, e)\<close> and has
  made no call of \<open>TauInverse\<close>.
\<close>

definition rejects_before_loop :: "Sloth \<Rightarrow> slice \<Rightarrow> slice \<Rightarrow> int option \<Rightarrow> error \<Rightarrow> bool" where
  "rejects_before_loop s input hash witness e \<longleftrightarrow>
     Verify s input hash witness = Some (False, Some e) \<and>
     Verify_run s input hash witness = Some ((False, Some e), 0)"

subsection \<open>The prime generator\<close>

text \<open>
  \<open>rand.Prime(rand.Reader, bits)\<close> is the external capability: \<open>rand_Prime k bits\<close> is
  what its \<open>k\<close>-th call returns, an error message or a candidate. The loop has no bound;
  \<open>None\<close> is the run that never returns.
\<close>

partial_function (option) GenerateSlothPrime ::
  "(nat \<Rightarrow> int \<Rightarrow> string + int) \<Rightarrow> int \<Rightarrow> nat \<Rightarrow> (error + int) option" where
  "GenerateSlothPrime rand_Prime bits k =
     (case rand_Prime k bits of
        Inl err \<Rightarrow> Some (Inl (ErrCandidatePrime err))
      | Inr prime \<Rightarrow>
          if prime mod 4 = 3 then Some (Inr prime)
          else GenerateSlothPrime rand_Prime bits (Suc k))"

subsection \<open>The package over a store of objects\<close>

text \<open>
  A second embedding of \<open>New\<close>, the forward engine and \<open>Compute\<close>, in which the objects
  that the Go code allocates and mutates are kept in a store: every \<open>*big.Int\<close>, every
  \<open>hash.Hash\<close> and every \<open>Sloth\<close> struct lives at an address, \<open>new(big.Int)\<close> takes
  the next free address, and a method \<open>z.Op(x, y)\<close> reads the integers at \<open>x\<close> and
  \<open>y\<close> and overwrites the one at \<open>z\<close>. A call takes the store and returns the store
  it leaves behind; \<open>None\<close> is a panic (a nil dereference included).
\<close>

type_synonym addr = nat

record Sloth_struct =
  P_ptr :: addr
  Iterations_val :: int64
  HashFunc_val :: "byte list \<Rightarrow> byte list"
  sqrtExp_ptr :: addr

record store =
  ints :: "addr \<Rightarrow> int option"
  hashes :: "addr \<Rightarrow> hasher option"
  sloths :: "addr \<Rightarrow> Sloth_struct option"
  fresh :: addr

text \<open>
  The package variables \<open>bigZero\<close>, \<open>bigOne\<close>, \<open>bigTwo\<close>, \<open>bigFour\<close> and
  \<open>bigThree\<close>, in the order of their declaration: pointers to integers made when the
  package is initialised. The package never assigns to the variables themselves.
\<close>

definition bigZero :: addr where "bigZero = 0"
definition bigOne :: addr where "bigOne = 1"
definition bigTwo :: addr where "bigTwo = 2"
definition bigFour :: addr where "bigFour = 3"
definition bigThree :: addr where "bigThree = 4"

text \<open>
  \<open>math/big\<close> on the store. \<open>Int_store\<close> overwrites the receiver; the operations read
  their arguments before they write, so a receiver may also be an argument.
\<close>

definition Int_new :: "store \<Rightarrow> addr \<times> store" where
  "Int_new w = (fresh w, w\<lparr>ints := (ints w)(fresh w \<mapsto> 0), fresh := Suc (fresh w)\<rparr>)"

definition Int_store :: "addr \<Rightarrow> int \<Rightarrow> store \<Rightarrow> (addr \<times> store) option" where
  "Int_store z v w =
     (case ints w z of None \<Rightarrow> None
      | Some old \<Rightarrow> Some (z, w\<lparr>ints := (ints w)(z \<mapsto> v)\<rparr>))"

definition Int_Set :: "addr \<Rightarrow> addr \<Rightarrow> store \<Rightarrow> (addr \<times> store) option" where
  "Int_Set z x w = do { vx \<leftarrow> ints w x; Int_store z vx w }"

definition Int_Neg :: "addr \<Rightarrow> addr \<Rightarrow> store \<Rightarrow> (addr \<times> store) option" where
  "Int_Neg z x w = do { vx \<leftarrow> ints w x; Int_store z (- vx) w }"

definition Int_Add :: "addr \<Rightarrow> addr \<Rightarrow> addr \<Rightarrow> store \<Rightarrow> (addr \<times> store) option" where
  "Int_Add z x y w = do { vx \<leftarrow> ints w x; vy \<leftarrow> ints w y; Int_store z (vx + vy) w }"

definition Int_Sub :: "addr \<Rightarrow> addr \<Rightarrow> addr \<Rightarrow> store \<Rightarrow> (addr \<times> store) option" where
  "Int_Sub z x y w = do { vx \<leftarrow> ints w x; vy \<leftarrow> ints w y; Int_store z (vx - vy) w }"

definition Int_Mod :: "addr \<Rightarrow> addr \<Rightarrow> addr \<Rightarrow> store \<Rightarrow> (addr \<times> store) option" where
  "Int_Mod z x y w = do {
     vx \<leftarrow> ints w x; vy \<leftarrow> ints w y;
     v \<leftarrow> big_Mod vx vy;
     Int_store z v w
   }"

definition Int_Exp :: "addr \<Rightarrow> addr \<Rightarrow> addr \<Rightarrow> addr \<Rightarrow> store \<Rightarrow> (addr \<times> store) option" where
  "Int_Exp z x y m w = do {
     vx \<leftarrow> ints w x; vy \<leftarrow> ints w y; vm \<leftarrow> ints w m;
     v \<leftarrow> big_Exp vx vy vm;
     Int_store z v w
   }"

definition Int_SetBytes :: "addr \<Rightarrow> byte list \<Rightarrow> store \<Rightarrow> (addr \<times> store) option" where
  "Int_SetBytes z buf w = Int_store z (big_SetBytes buf) w"

definition Int_Bit0 :: "addr \<Rightarrow> store \<Rightarrow> nat option" where
  "Int_Bit0 x w = map_option big_Bit0 (ints w x)"

definition Int_Bytes :: "addr \<Rightarrow> store \<Rightarrow> byte list option" where
  "Int_Bytes x w = map_option big_Bytes (ints w x)"

definition Int_Jacobi :: "addr \<Rightarrow> addr \<Rightarrow> store \<Rightarrow> int option" where
  "Int_Jacobi x y w = do { vx \<leftarrow> ints w x; vy \<leftarrow> ints w y; big_Jacobi vx vy }"

text \<open>
  \<open>z.Div(x, y)\<close> is Euclidean division; \<open>x.Cmp(y)\<close> is -1, 0 or 1.
\<close>

definition big_Div :: "int \<Rightarrow> int \<Rightarrow> int option" where
  "big_Div x y = (if y = 0 then None else Some (sgn y * (x div \<bar>y\<bar>)))"

definition Int_Div :: "addr \<Rightarrow> addr \<Rightarrow> addr \<Rightarrow> store \<Rightarrow> (addr \<times> store) option" where
  "Int_Div z x y w = do {
     vx \<leftarrow> ints w x; vy \<leftarrow> ints w y;
     v \<leftarrow> big_Div vx vy;
     Int_store z v w
   }"

definition Int_Cmp :: "addr \<Rightarrow> addr \<Rightarrow> store \<Rightarrow> int option" where
  "Int_Cmp x y w = do {
     vx \<leftarrow> ints w x; vy \<leftarrow> ints w y;
     Some (if vx < vy then - 1 else if vx = vy then 0 else 1)
   }"

text \<open>
  Hash objects on the store. The field \<open>HashFunc\<close> of an instance holds the
  constructor that \<open>New\<close> stores, \<open>sha256.New\<close>; it is represented by the digest
  function, and a call of it (\<open>Hash_new\<close>) allocates a hash object with nothing
  written, as the library's constructor does. \<open>Sum(nil)\<close> leaves the object as it is.
\<close>

definition Hash_new :: "(byte list \<Rightarrow> byte list) \<Rightarrow> store \<Rightarrow> addr \<times> store" where
  "Hash_new d w =
     (fresh w, w\<lparr>hashes := (hashes w)(fresh w \<mapsto> \<lparr>digest = d, written = []\<rparr>),
                 fresh := Suc (fresh w)\<rparr>)"

definition Hash_Write :: "addr \<Rightarrow> slice \<Rightarrow> store \<Rightarrow> store option" where
  "Hash_Write a b w = do { h \<leftarrow> hashes w a; Some (w\<lparr>hashes := (hashes w)(a \<mapsto> hash_Write h b)\<rparr>) }"

definition Hash_Reset :: "addr \<Rightarrow> store \<Rightarrow> store option" where
  "Hash_Reset a w = do { h \<leftarrow> hashes w a; Some (w\<lparr>hashes := (hashes w)(a \<mapsto> hash_Reset h)\<rparr>) }"

definition Hash_Sum :: "addr \<Rightarrow> store \<Rightarrow> byte list option" where
  "Hash_Sum a w = map_option hash_Sum (hashes w a)"

text \<open>\<open>New\<close>, with \<open>p\<close> a pointer; the struct is allocated last.\<close>

definition New_st ::
  "(byte list \<Rightarrow> byte list) \<Rightarrow> addr \<Rightarrow> int64 \<Rightarrow> store \<Rightarrow> ((error + addr) \<times> store) option" where
  "New_st sha256 p iterations m0 =
     (if sint iterations \<le> 0 then Some (Inl ErrIterationsNotPositive, m0)
      else do {
        vp \<leftarrow> ints m0 p;
        if \<not> ProbablyPrime vp then Some (Inl ErrNotPrime, m0)
        else do {
          let (z, m1) = Int_new m0;
          (r, m2) \<leftarrow> Int_Mod z p bigFour m1;
          c \<leftarrow> Int_Cmp r bigThree m2;
          if c \<noteq> 0 then Some (Inl ErrNotCongruent, m2)
          else do {
            let (z, m3) = Int_new m2;
            (sqrtExp, m4) \<leftarrow> Int_Add z p bigOne m3;
            (sqrtExp, m5) \<leftarrow> Int_Div sqrtExp sqrtExp bigFour m4;
            let this = \<lparr>P_ptr = p, Iterations_val = iterations, HashFunc_val = sha256,
                        sqrtExp_ptr = sqrtExp\<rparr>;
            Some (Inr (fresh m5),
                  m5\<lparr>sloths := (sloths m5)(fresh m5 \<mapsto> this), fresh := Suc (fresh m5)\<rparr>)
          }
        }
      })"

text \<open>Reading a field of the struct at \<open>s\<close>, at the moment of the read.\<close>

definition get_P :: "addr \<Rightarrow> store \<Rightarrow> addr option" where
  "get_P s m = map_option P_ptr (sloths m s)"

definition get_sqrtExp :: "addr \<Rightarrow> store \<Rightarrow> addr option" where
  "get_sqrtExp s m = map_option sqrtExp_ptr (sloths m s)"

definition get_Iterations :: "addr \<Rightarrow> store \<Rightarrow> int64 option" where
  "get_Iterations s m = map_option Iterations_val (sloths m s)"

definition get_HashFunc :: "addr \<Rightarrow> store \<Rightarrow> (byte list \<Rightarrow> byte list) option" where
  "get_HashFunc s m = map_option HashFunc_val (sloths m s)"

text \<open>The forward engine, statement by statement.\<close>

definition sigma_st :: "addr \<Rightarrow> addr \<Rightarrow> store \<Rightarrow> (addr \<times> store) option" where
  "sigma_st s x m0 = do {
     let (res, m1) = Int_new m0;
     bit \<leftarrow> Int_Bit0 x m1;
     (res, m2) \<leftarrow> (if bit = 0 then Int_Sub res x bigOne m1 else Int_Add res x bigOne m1);
     p \<leftarrow> get_P s m2;
     Int_Mod res res p m2
   }"

definition rho_st :: "addr \<Rightarrow> addr \<Rightarrow> store \<Rightarrow> (addr \<times> store) option" where
  "rho_st s x m0 = do {
     let (valToRoot, m1) = Int_new m0;
     p \<leftarrow> get_P s m1;
     jac \<leftarrow> Int_Jacobi x p m1;
     (valToRoot, m2) \<leftarrow>
       (if jac = 1 then Int_Set valToRoot x m1
        else do {
          (z, m) \<leftarrow> Int_Neg valToRoot x m1;
          p \<leftarrow> get_P s m;
          Int_Mod z valToRoot p m
        });
     let (z, m3) = Int_new m2;
     e \<leftarrow> get_sqrtExp s m3;
     p \<leftarrow> get_P s m3;
     (root, m4) \<leftarrow> Int_Exp z valToRoot e p m3;
     bit \<leftarrow> Int_Bit0 root m4;
     if bit = 0 then Some (root, m4)
     else do {
       let (z, m5) = Int_new m4;
       p \<leftarrow> get_P s m5;
       Int_Sub z p root m5
     }
   }"

definition Tau_st :: "addr \<Rightarrow> addr \<Rightarrow> store \<Rightarrow> (addr \<times> store) option" where
  "Tau_st s x m0 = do { (y, m1) \<leftarrow> sigma_st s x m0; rho_st s y m1 }"

text \<open>
  The loop of \<open>Compute\<close> reads \<open>s.Iterations\<close> before every round. An \<open>int64\<close> is
  below \<open>2 ^ 63\<close>, which bounds the rounds whatever the store holds.
\<close>

function tau_loop_st :: "addr \<Rightarrow> int \<Rightarrow> addr \<Rightarrow> store \<Rightarrow> (addr \<times> store) option" where
  "tau_loop_st s i w m =
     (case get_Iterations s m of None \<Rightarrow> None
      | Some n \<Rightarrow>
          if i < sint n
          then (case Tau_st s w m of None \<Rightarrow> None
                | Some (w', m') \<Rightarrow> tau_loop_st s (i + 1) w' m')
          else Some (w, m))"
  by pat_completeness auto
termination
proof (relation "measure (\<lambda>(s, i, w, m). nat (2 ^ 63 - i))")
  show "wf (measure (\<lambda>(s :: addr, i :: int, w :: addr, m :: store). nat (2 ^ 63 - i)))"
    by simp
next
  fix s :: addr and i :: int and w :: addr and m :: store and n :: int64
    and r :: "addr \<times> store" and w' :: addr and m' :: store
  assume "i < sint n"
  moreover have "sint n < 2 ^ 63"
    using sint_lt [of n] by simp
  ultimately show "((s, i + 1, w', m'), (s, i, w, m)) \<in> measure (\<lambda>(s, i, w, m). nat (2 ^ 63 - i))"
    by simp
qed

declare tau_loop_st.simps [simp del]

definition Compute_st ::
  "addr \<Rightarrow> slice \<Rightarrow> store \<Rightarrow> ((slice \<times> addr option \<times> error option) \<times> store) option" where
  "Compute_st s input m0 = do {
     mk \<leftarrow> get_HashFunc s m0;
     let (hasher, m1) = Hash_new mk m0;
     m2 \<leftarrow> Hash_Write hasher input m1;
     uBytes \<leftarrow> Hash_Sum hasher m2;
     let (z, m3) = Int_new m2;
     (w, m4) \<leftarrow> Int_SetBytes z uBytes m3;
     p \<leftarrow> get_P s m4;
     (w, m5) \<leftarrow> Int_Mod w w p m4;
     (w, m6) \<leftarrow> tau_loop_st s 0 w m5;
     let (z, m7) = Int_new m6;
     (witness, m8) \<leftarrow> Int_Set z w m7;
     m9 \<leftarrow> Hash_Reset hasher m8;
     bytes \<leftarrow> Int_Bytes witness m9;
     m10 \<leftarrow> Hash_Write hasher (Some bytes) m9;
     hash \<leftarrow> Hash_Sum hasher m10;
     Some ((Some hash, Some witness, None), m10)
   }"

text \<open>
  What a call may rely on, and what it leaves alone. \<open>package_vars\<close>: the package
  variables hold their values. \<open>holds m s S\<close>: in the store \<open>m\<close> the struct at \<open>s\<close> has
  the field values of the instance \<open>S\<close>, its two integers being allocated.
  \<open>frame m m'\<close>: the store \<open>m'\<close> has every object of \<open>m\<close>, unchanged, and possibly
  new ones.
\<close>

definition package_vars :: "store \<Rightarrow> bool" where
  "package_vars m \<longleftrightarrow>
     5 \<le> fresh m \<and> ints m bigZero = Some 0 \<and> ints m bigOne = Some 1 \<and>
     ints m bigTwo = Some 2 \<and> ints m bigFour = Some 4 \<and> ints m bigThree = Some 3"

definition holds :: "store \<Rightarrow> addr \<Rightarrow> Sloth \<Rightarrow> bool" where
  "holds m s S \<longleftrightarrow>
     (\<exists>this. s < fresh m \<and> sloths m s = Some this \<and>
        P_ptr this < fresh m \<and> ints m (P_ptr this) = Some (P S) \<and>
        sqrtExp_ptr this < fresh m \<and> ints m (sqrtExp_ptr this) = Some (sqrtExp S) \<and>
        Iterations_val this = Iterations S \<and> HashFunc_val this = HashFunc S)"

definition frame :: "store \<Rightarrow> store \<Rightarrow> bool" where
  "frame m m' \<longleftrightarrow>
     fresh m \<le> fresh m' \<and>
     (\<forall>a. a < fresh m \<longrightarrow>
        ints m' a = ints m a \<and> hashes m' a = hashes m a \<and> sloths m' a = sloths m a)"

subsection \<open>A small instance\<close>

text \<open>
  The instance that \<open>New\<close> builds for \<open>p = 7\<close> and one iteration, with a one-byte
  checksum (the sum of the written bytes) as its hash, and a random source whose first
  candidate is 29 and whose later candidates are 31. They serve as concrete inputs.
\<close>

definition sum_hash :: "byte list \<Rightarrow> byte list" where
  "sum_hash bs = [sum_list bs]"

definition sloth7 :: Sloth where
  "sloth7 = \<lparr>P = 7, Iterations = 1, HashFunc = sum_hash, sqrtExp = 2\<rparr>"

definition rand_29_31 :: "nat \<Rightarrow> int \<Rightarrow> string + int" where
  "rand_29_31 k bits = (if k = 0 then Inr 29 else Inr 31)"

text \<open>
  A store after package initialisation that also holds the integer 7 at address 5 and, at
  address 6, a hash object into which a byte has been written already.
\<close>

definition store7 :: store where
  "store7 = \<lparr>ints = [0 \<mapsto> 0, 1 \<mapsto> 1, 2 \<mapsto> 2, 3 \<mapsto> 4, 4 \<mapsto> 3, 5 \<mapsto> 7],
             hashes = [6 \<mapsto> \<lparr>digest = sum_hash, written = [9]\<rparr>],
             sloths = Map.empty, fresh = 7\<rparr>"

section \<open>Instances built by \<open>New\<close>\<close>

lemma New_sloth7: "New sum_hash 7 1 = Inr sloth7"
  by (simp add: New_def sloth7_def ProbablyPrime_def) code_simp

lemma New_Inr_iff:
  "New h p it = Inr s \<longleftrightarrow>
     0 < sint it \<and> ProbablyPrime p \<and> p mod 4 = 3 \<and>
     s = \<lparr>P = p, Iterations = it, HashFunc = h, sqrtExp = (p + 1) div 4\<rparr>"
  by (auto simp: New_def Let_def)

lemma New_fields:
  assumes "New h p it = Inr s"
  shows "P s = p" "Iterations s = it" "HashFunc s = h" "sqrtExp s = (p + 1) div 4"
    "3 \<le> p" "odd p" "0 < sint it" "1 \<le> sqrtExp s"
proof -
  from assms have s: "s = \<lparr>P = p, Iterations = it, HashFunc = h, sqrtExp = (p + 1) div 4\<rparr>"
    and p4: "p mod 4 = 3" and it: "0 < sint it" and pr: "ProbablyPrime p"
    by (simp_all add: New_Inr_iff)
  show "P s = p" "Iterations s = it" "HashFunc s = h" "sqrtExp s = (p + 1) div 4"
    by (simp_all add: s)
  show "0 < sint it" by (rule it)
  have "1 < p" using pr by (simp add: ProbablyPrime_def is_prime_def)
  then show "3 \<le> p" using p4 by presburger
  show "odd p" using p4 by presburger
  show "1 \<le> sqrtExp s" using \<open>3 \<le> p\<close> by (simp add: s)
qed

section \<open>The engine on such an instance\<close>

text \<open>
  No call panics on an instance built by \<open>New\<close>: the modulus is odd and at least 3, the
  exponents are positive. The lemmas give each step in closed form.
\<close>

lemma sigma_New:
  assumes "New h p it = Inr s"
  shows "sigma s x = Some ((if even x then x - 1 else x + 1) mod p)"
  using New_fields(1,5) [OF assms]
  by (simp add: sigma_def big_Mod_def big_Bit0_def Let_def)

lemma rhoInverse_New:
  assumes "New h p it = Inr s"
  shows "rhoInverse s y = Some (y\<^sup>2 mod p)"
  using New_fields(1,5) [OF assms]
  by (simp add: rhoInverse_def big_Exp_def big_Mod_def big_Bit0_def Let_def)

lemma jacobi_loop_zero: "1 < b \<Longrightarrow> jacobi_loop 0 b j = 0"
  by (simp add: jacobi_loop.simps)

lemma rho_New:
  assumes "New h p it = Inr s"
  shows "\<exists>r. rho s x = Some r \<and> even r \<and> 0 \<le> r \<and> r < p"
proof -
  note f = New_fields [OF assms]
  define jac where "jac = jacobi_loop x \<bar>p\<bar> (if p < 0 \<and> x < 0 then - 1 else 1)"
  define v where "v = (if jac = 1 then x else (- x) mod \<bar>p\<bar>)"
  define root where "root = v ^ nat (sqrtExp s) mod \<bar>p\<bar>"
  have rho: "rho s x = Some (if even root then root else p - root)"
    using f(1,5,6,8)
    by (simp add: rho_def big_Jacobi_def big_Mod_def big_Exp_def big_Bit0_def
        jac_def v_def root_def Let_def)
  have range: "0 \<le> root" "root < p"
    using f(5) by (simp_all add: root_def)
  show ?thesis
  proof (cases "even root")
    case True
    with rho range show ?thesis by simp
  next
    case False
    then have "root \<noteq> 0" by auto
    with False rho range f(6) show ?thesis by simp
  qed
qed

lemma Tau_New:
  assumes "New h p it = Inr s"
  shows "\<exists>y. Tau s x = Some y \<and> even y \<and> 0 \<le> y \<and> y < p"
  using rho_New [OF assms] by (simp add: Tau_def sigma_New [OF assms])

lemma tau_loop_New:
  assumes "New h p it = Inr s"
  shows "\<exists>w'. tau_loop s i w = Some w' \<and>
           (i < sint it \<or> (even w \<and> 0 \<le> w \<and> w < p) \<longrightarrow> even w' \<and> 0 \<le> w' \<and> w' < p)"
  using assms
proof (induction s i w rule: tau_loop.induct)
  case (1 s i w)
  note f = New_fields [OF "1.prems"]
  show ?case
  proof (cases "i < sint (Iterations s)")
    case True
    obtain y where y: "Tau s w = Some y" "even y" "0 \<le> y" "y < p"
      using Tau_New [OF "1.prems"] by blast
    from "1.IH" [OF True y(1) "1.prems"] obtain w' where
      w': "tau_loop s (i + 1) y = Some w'" "even w' \<and> 0 \<le> w' \<and> w' < p"
      using y by blast
    have "tau_loop s i w = Some w'"
      using True y(1) w'(1) by (subst tau_loop.simps) simp
    with w'(2) show ?thesis by simp
  next
    case False
    then have "tau_loop s i w = Some w" by (subst tau_loop.simps) simp
    with False f(2) show ?thesis by simp
  qed
qed

lemma Compute_New:
  assumes "New h p it = Inr s"
  shows "\<exists>w. Compute s input = Some (Some (h (big_Bytes w)), Some w, None) \<and>
             even w \<and> 0 \<le> w \<and> w < p"
proof -
  note f = New_fields [OF assms]
  define w0 where
    "w0 = big_SetBytes (h (case input of None \<Rightarrow> [] | Some bs \<Rightarrow> bs)) mod p"
  obtain w where w: "tau_loop s 0 w0 = Some w" "even w" "0 \<le> w" "w < p"
    using tau_loop_New [OF assms, of 0 w0] f(7) by blast
  have "Compute s input = Some (Some (h (big_Bytes w)), Some w, None)"
    using f(1,3,5) w(1)
    by (simp add: Compute_def new_hasher_def hash_Write_def hash_Sum_def hash_Reset_def
        big_Mod_def w0_def Let_def)
  with w show ?thesis by blast
qed

text \<open>
  The symbol that \<open>big_Jacobi\<close> computes modulo 7 (the squares are 1, 2 and 4) and
  modulo 11 (the squares are 1, 3, 4, 5 and 9).
\<close>

lemma big_Jacobi_7:
  "map (\<lambda>x. big_Jacobi x 7) [0, 1, 2, 3, 4, 5, 6] =
     [Some 0, Some 1, Some 1, Some (- 1), Some 1, Some (- 1), Some (- 1)]"
  by code_simp

lemma big_Jacobi_11:
  "map (\<lambda>x. big_Jacobi x 11) [0, 1, 2, 3, 4, 5, 6, 7, 8, 9, 10] =
     [Some 0, Some 1, Some (- 1), Some 1, Some 1, Some 1, Some (- 1), Some (- 1), Some (- 1),
      Some 1, Some (- 1)]"
  by code_simp

text \<open>
  The inverse step in closed form, and the number of calls that the loop of \<open>Verify\<close>
  makes once the checks before it have passed: the iteration count.
\<close>

lemma TauInverse_New:
  assumes "New h p it = Inr s"
  shows "TauInverse s y = Some ((if even (y\<^sup>2 mod p) then y\<^sup>2 mod p - 1 else y\<^sup>2 mod p + 1) mod p)"
  by (simp add: TauInverse_def rhoInverse_New [OF assms] sigmaInverse_def sigma_New [OF assms])

lemma tauInverse_loop_New:
  assumes "New h p it = Inr s"
  shows "\<exists>w'. tauInverse_loop s i w c = Some (w', c + nat (sint it - i))"
  using assms
proof (induction s i w c rule: tauInverse_loop.induct)
  case (1 s i w c)
  note f = New_fields [OF "1.prems"]
  show ?case
  proof (cases "i < sint (Iterations s)")
    case True
    obtain y where y: "TauInverse s w = Some y"
      using TauInverse_New [OF "1.prems"] by blast
    from "1.IH" [OF True y "1.prems"] obtain w' where
      "tauInverse_loop s (i + 1) y (Suc c) = Some (w', Suc c + nat (sint it - (i + 1)))"
      by blast
    moreover have "Suc c + nat (sint it - (i + 1)) = c + nat (sint it - i)"
      using True f(2) by simp
    ultimately have "tauInverse_loop s i w c = Some (w', c + nat (sint it - i))"
      using True y by (subst tauInverse_loop.simps) simp
    then show ?thesis by blast
  next
    case False
    then have "tauInverse_loop s i w c = Some (w, c)" by (subst tauInverse_loop.simps) simp
    with False f(2) show ?thesis by simp
  qed
qed

lemma Verify_run_calls:
  assumes "New h p it = Inr s" and "0 \<le> w" and "w < p"
  shows "\<exists>r. Verify_run s (Some inp) (Some (h (big_Bytes w))) (Some w) = Some (r, nat (sint it))"
proof -
  note f = New_fields [OF assms(1)]
  obtain w' where "tauInverse_loop s 0 w 0 = Some (w', nat (sint it))"
    using tauInverse_loop_New [OF assms(1), of 0 w 0] by auto
  then show ?thesis
    using f(1,3,5) assms(2,3)
    by (auto simp: Verify_run_def new_hasher_def hash_Write_def hash_Sum_def hash_Reset_def
        big_Mod_def Let_def)
qed

section \<open>Construction\<close>

text \<open>
  C5. \<open>New\<close> returns an error (and then no instance) exactly when the iteration count
  is not positive, or \<open>p\<close> fails the primality test, or \<open>p\<close> is not 3 modulo 4; in
  every other case it returns an instance, whose \<open>sqrtExp\<close> is \<open>(p + 1) / 4\<close>.
\<close>

theorem New_validation:
  "(sint it \<le> 0 \<or> \<not> ProbablyPrime p \<or> p mod 4 \<noteq> 3 \<longrightarrow> (\<exists>e. New h p it = Inl e)) \<and>
   (\<not> (sint it \<le> 0 \<or> \<not> ProbablyPrime p \<or> p mod 4 \<noteq> 3) \<longrightarrow>
      (\<exists>s. New h p it = Inr s \<and> sqrtExp s = (p + 1) div 4))"
  by (simp add: New_def Let_def)

text \<open>The four outcomes at concrete arguments: 7, and the rejected 0 iterations, 9 and 17.\<close>

theorem New_validation_witness:
  "New sum_hash 7 1 = Inr sloth7 \<and> sqrtExp sloth7 = (7 + 1) div 4 \<and>
   New sum_hash 7 0 = Inl ErrIterationsNotPositive \<and>
   New sum_hash 9 100 = Inl ErrNotPrime \<and>
   New sum_hash 17 100 = Inl ErrNotCongruent"
proof -
  have 1: "\<not> ProbablyPrime 9" by code_simp
  have 2: "ProbablyPrime 17" by code_simp
  have 3: "ProbablyPrime 7" by code_simp
  have 4: "sint (100 :: int64) = 100" by simp
  show ?thesis
    using New_validation [of 1 7 sum_hash] New_validation [of 0 7 sum_hash]
      New_validation [of 100 9 sum_hash] New_validation [of 100 17 sum_hash] 1 2 3 4 New_sloth7
    by (simp add: New_def sloth7_def)
qed

section \<open>The square-root step at zero\<close>

text \<open>
  C7. On every instance built by \<open>New\<close>, zero is a fixed point of both square-root
  steps: \<open>rho\<close> maps 0 to 0 (the Jacobi symbol of 0 is 0, so the branch for
  non-residues is taken, with \<open>- 0 = 0\<close>), and \<open>rhoInverse\<close> maps 0 to 0.
\<close>

theorem rho_rhoInverse_zero:
  assumes "New h p it = Inr s"
  shows "rho s 0 = Some 0 \<and> rhoInverse s 0 = Some 0"
proof -
  note f = New_fields [OF assms]
  have jac: "big_Jacobi 0 (P s) = Some 0"
    using f(1,5,6) by (simp add: big_Jacobi_def jacobi_loop_zero)
  have exp: "big_Exp 0 (sqrtExp s) (P s) = Some 0"
    using f(1,5,8) by (simp add: big_Exp_def power_0_left)
  have "P s \<noteq> 0" using f(1,5) by simp
  then have "rho s 0 = Some 0"
    by (simp add: rho_def jac exp big_Mod_def big_Bit0_def)
  moreover have "rhoInverse s 0 = Some 0"
    by (simp add: rhoInverse_New [OF assms])
  ultimately show ?thesis by simp
qed

theorem rho_rhoInverse_zero_witness:
  "New sum_hash 7 1 = Inr sloth7 \<and> rho sloth7 0 = Some 0 \<and> rhoInverse sloth7 0 = Some 0"
  using rho_rhoInverse_zero [OF New_sloth7] New_sloth7 by simp

section \<open>Parity of the outputs\<close>

text \<open>
  C8. On every instance built by \<open>New\<close> (so with at least one iteration), every output
  of \<open>Tau\<close> has lowest bit 0, and for every input \<open>Compute\<close> returns a digest and a
  witness, without error, whose lowest bit is 0: \<open>rho\<close> returns the even one of the two
  roots.
\<close>

theorem Tau_and_witness_even:
  assumes "New h p it = Inr s"
  shows "(\<exists>y. Tau s x = Some y \<and> big_Bit0 y = 0) \<and>
         (\<exists>d w. Compute s input = Some (Some d, Some w, None) \<and> big_Bit0 w = 0)"
proof -
  obtain y where "Tau s x = Some y" "even y"
    using Tau_New [OF assms] by blast
  moreover obtain w where "Compute s input = Some (Some (h (big_Bytes w)), Some w, None)" "even w"
    using Compute_New [OF assms] by blast
  ultimately show ?thesis
    by (auto simp: big_Bit0_def)
qed

theorem Tau_and_witness_even_witness:
  "New sum_hash 7 1 = Inr sloth7 \<and> Tau sloth7 4 = Some 2 \<and> big_Bit0 2 = 0 \<and>
   Compute sloth7 (Some [4]) = Some (Some [2], Some 2, None)"
proof -
  have "Tau sloth7 4 = Some 2" by code_simp
  moreover have "Compute sloth7 (Some [4]) = Some (Some [2], Some 2, None)" by code_simp
  ultimately show ?thesis
    using Tau_and_witness_even [OF New_sloth7, of 4 "Some [4]"] New_sloth7
    by (simp add: big_Bit0_def)
qed

section \<open>The package over the store\<close>

text \<open>
  On a store where the package variables hold their values and the struct at \<open>s\<close> holds
  an instance built by \<open>New\<close>, every call of the store embedding returns, leaves all
  earlier objects as they were, and its result is the value that the embedding without a
  store computes. \<open>New\<close> on the store builds such a struct.
\<close>

lemma frame_refl: "frame m m"
  by (simp add: frame_def)

lemma frame_trans: "frame a b \<Longrightarrow> frame b c \<Longrightarrow> frame a c"
  by (auto simp: frame_def)

lemma package_vars_frame: "package_vars m \<Longrightarrow> frame m m' \<Longrightarrow> package_vars m'"
  by (auto simp: package_vars_def frame_def bigZero_def bigOne_def bigTwo_def bigFour_def
      bigThree_def)

lemma holds_frame: "holds m s S \<Longrightarrow> frame m m' \<Longrightarrow> holds m' s S"
  by (auto simp: holds_def frame_def)

lemma sigma_st_ok:
  assumes S: "New h p it = Inr S" and pv: "package_vars m" and hs: "holds m s S"
    and x: "x < fresh m" "ints m x = Some vx"
  shows "\<exists>r m' v. sigma_st s x m = Some (r, m') \<and> frame m m' \<and> r < fresh m' \<and>
           ints m' r = Some v \<and> sigma S vx = Some v"
proof -
  note f = New_fields [OF S]
  obtain this where obj: "sloths m s = Some this" "P_ptr this < fresh m"
      "ints m (P_ptr this) = Some p"
    using hs f(1) by (auto simp: holds_def)
  have one: "bigOne < fresh m" "ints m bigOne = Some 1"
    using pv by (simp_all add: package_vars_def bigOne_def)
  have ne: "x \<noteq> fresh m" "bigOne \<noteq> fresh m" "P_ptr this \<noteq> fresh m"
    using x(1) one(1) obj(2) by simp_all
  show ?thesis
    using obj one ne x f(5)
    by (simp add: sigma_st_def Int_new_def Int_Bit0_def Int_Sub_def Int_Add_def Int_Mod_def
        Int_store_def get_P_def big_Mod_def sigma_New [OF S] frame_def big_Bit0_def)
qed


lemma rho_st_ok:
  assumes S: "New h p it = Inr S" and pv: "package_vars m" and hs: "holds m s S"
    and x: "x < fresh m" "ints m x = Some vx"
  shows "\<exists>r m' v. rho_st s x m = Some (r, m') \<and> frame m m' \<and> r < fresh m' \<and>
           ints m' r = Some v \<and> rho S vx = Some v"
proof -
  note f = New_fields [OF S]
  obtain this where obj: "sloths m s = Some this" "P_ptr this < fresh m"
      "ints m (P_ptr this) = Some p" "sqrtExp_ptr this < fresh m"
      "ints m (sqrtExp_ptr this) = Some (sqrtExp S)"
    using hs f(1) by (auto simp: holds_def)
  have ne: "x \<noteq> fresh m" "P_ptr this \<noteq> fresh m" "sqrtExp_ptr this \<noteq> fresh m"
    "x \<noteq> Suc (fresh m)" "P_ptr this \<noteq> Suc (fresh m)" "sqrtExp_ptr this \<noteq> Suc (fresh m)"
    "x \<noteq> Suc (Suc (fresh m))" "P_ptr this \<noteq> Suc (Suc (fresh m))"
    using x(1) obj(2,4) by simp_all
  define jac where "jac = jacobi_loop vx \<bar>p\<bar> (if p < 0 \<and> vx < 0 then - 1 else 1)"
  define v where "v = (if jac = 1 then vx else (- vx) mod \<bar>p\<bar>)"
  define root where "root = v ^ nat (sqrtExp S) mod \<bar>p\<bar>"
  have pure: "rho S vx = Some (if even root then root else p - root)"
    using f(1,5,6,8)
    by (simp add: rho_def big_Jacobi_def big_Mod_def big_Exp_def big_Bit0_def
        jac_def v_def root_def Let_def)
  have jacobi: "big_Jacobi vx p = Some jac"
    using f(6) by (simp add: big_Jacobi_def jac_def)
  have exp: "big_Exp v (sqrtExp S) p = Some root"
    using f(5,8) by (simp add: big_Exp_def root_def)
  show ?thesis
  proof (cases "jac = 1")
    case True
    then have "v = vx" by (simp add: v_def)
    then show ?thesis
      using obj ne x f(5) jacobi exp True pure
      by (cases "even root")
        (simp_all add: rho_st_def Int_new_def Int_Bit0_def Int_Sub_def Int_Set_def Int_Neg_def
          Int_Mod_def Int_Exp_def Int_Jacobi_def Int_store_def get_P_def get_sqrtExp_def
          big_Mod_def frame_def big_Bit0_def)
  next
    case False
    then have "v = (- vx) mod \<bar>p\<bar>" by (simp add: v_def)
    then show ?thesis
      using obj ne x f(5) jacobi exp False pure
      by (cases "even root")
        (simp_all add: rho_st_def Int_new_def Int_Bit0_def Int_Sub_def Int_Set_def Int_Neg_def
          Int_Mod_def Int_Exp_def Int_Jacobi_def Int_store_def get_P_def get_sqrtExp_def
          big_Mod_def frame_def big_Bit0_def)
  qed
qed

lemma Tau_st_ok:
  assumes S: "New h p it = Inr S" and pv: "package_vars m" and hs: "holds m s S"
    and x: "x < fresh m" "ints m x = Some vx"
  shows "\<exists>r m' v. Tau_st s x m = Some (r, m') \<and> frame m m' \<and> r < fresh m' \<and>
           ints m' r = Some v \<and> Tau S vx = Some v"
proof -
  obtain y m1 vy where 1: "sigma_st s x m = Some (y, m1)" "frame m m1" "y < fresh m1"
      "ints m1 y = Some vy" "sigma S vx = Some vy"
    using sigma_st_ok [OF S pv hs x] by blast
  obtain r m2 v where 2: "rho_st s y m1 = Some (r, m2)" "frame m1 m2" "r < fresh m2"
      "ints m2 r = Some v" "rho S vy = Some v"
    using rho_st_ok [OF S package_vars_frame [OF pv 1(2)] holds_frame [OF hs 1(2)] 1(3,4)]
    by blast
  have "Tau_st s x m = Some (r, m2)" using 1(1) 2(1) by (simp add: Tau_st_def)
  moreover have "Tau S vx = Some v" using 1(5) 2(5) by (simp add: Tau_def)
  ultimately show ?thesis using frame_trans [OF 1(2) 2(2)] 2(3,4) by blast
qed


lemma tau_loop_st_ok:
  assumes S: "New h p it = Inr S"
  shows "package_vars m \<Longrightarrow> holds m s S \<Longrightarrow> w < fresh m \<Longrightarrow> ints m w = Some vw \<Longrightarrow>
         \<exists>r m' v. tau_loop_st s i w m = Some (r, m') \<and> frame m m' \<and> r < fresh m' \<and>
           ints m' r = Some v \<and> tau_loop S i vw = Some v"
proof (induction s i w m arbitrary: vw rule: tau_loop_st.induct)
  case (1 s i w m)
  note f = New_fields [OF S]
  have n: "get_Iterations s m = Some it"
    using "1.prems"(2) f(2) by (auto simp: holds_def get_Iterations_def)
  show ?case
  proof (cases "i < sint it")
    case True
    obtain y m1 vy where t: "Tau_st s w m = Some (y, m1)" "frame m m1" "y < fresh m1"
        "ints m1 y = Some vy" "Tau S vw = Some vy"
      using Tau_st_ok [OF S "1.prems"] by blast
    obtain r m2 v where l: "tau_loop_st s (i + 1) y m1 = Some (r, m2)" "frame m1 m2"
        "r < fresh m2" "ints m2 r = Some v" "tau_loop S (i + 1) vy = Some v"
      using "1.IH" [OF n True t(1) refl package_vars_frame [OF "1.prems"(1) t(2)]
          holds_frame [OF "1.prems"(2) t(2)] t(3,4)]
      by blast
    have "tau_loop_st s i w m = Some (r, m2)"
      using n True t(1) l(1) by (subst tau_loop_st.simps) simp
    moreover have "tau_loop S i vw = Some v"
      using True t(5) l(5) f(2) by (subst tau_loop.simps) simp
    ultimately show ?thesis
      using frame_trans [OF t(2) l(2)] l(3,4) by blast
  next
    case False
    have "tau_loop_st s i w m = Some (w, m)"
      using n False by (subst tau_loop_st.simps) simp
    moreover have "tau_loop S i vw = Some vw"
      using False f(2) by (subst tau_loop.simps) simp
    ultimately show ?thesis
      using "1.prems"(3,4) frame_refl by blast
  qed
qed

lemma Compute_st_ok:
  assumes S: "New h p it = Inr S" and pv: "package_vars m" and hs: "holds m s S"
  shows "\<exists>d a v m'. Compute_st s input m = Some ((Some d, Some a, None), m') \<and>
           ints m' a = Some v \<and> frame m m' \<and>
           Compute S input = Some (Some d, Some v, None)"
proof -
  note f = New_fields [OF S]
  obtain this where obj: "sloths m s = Some this" "P_ptr this < fresh m"
      "ints m (P_ptr this) = Some p" "HashFunc_val this = h"
    using hs f(1,3) by (auto simp: holds_def)
  define inp where "inp = (case input of None \<Rightarrow> [] | Some bs \<Rightarrow> bs)"
  define w0 where "w0 = big_SetBytes (h inp) mod p"
  define k where "k = fresh m"
  define m5 where "m5 = m\<lparr>hashes := (hashes m)(k \<mapsto> \<lparr>digest = h, written = inp\<rparr>),
      fresh := Suc (Suc k), ints := (ints m)(Suc k \<mapsto> w0)\<rparr>"
  have fr5: "frame m m5"
    by (simp add: frame_def m5_def k_def)
  have w5: "Suc k < fresh m5" "ints m5 (Suc k) = Some w0"
    by (simp_all add: m5_def)
  obtain r m6 v where l: "tau_loop_st s 0 (Suc k) m5 = Some (r, m6)" "frame m5 m6"
      "r < fresh m6" "ints m6 r = Some v" "tau_loop S 0 w0 = Some v"
    using tau_loop_st_ok [OF S package_vars_frame [OF pv fr5] holds_frame [OF hs fr5] w5]
    by blast
  have pure: "Compute S input = Some (Some (h (big_Bytes v)), Some v, None)"
    using f(1,3,5) l(5)
    by (simp add: Compute_def new_hasher_def hash_Write_def hash_Sum_def hash_Reset_def
        big_Mod_def w0_def inp_def Let_def)
  have k6: "k < fresh m6" "hashes m6 k = Some \<lparr>digest = h, written = inp\<rparr>"
    "Suc (Suc k) \<le> fresh m6"
    using l(2) by (auto simp: frame_def m5_def)
  define m10 where "m10 = m6\<lparr>ints := (ints m6)(fresh m6 \<mapsto> v),
      fresh := Suc (fresh m6),
      hashes := (hashes m6)(k \<mapsto> \<lparr>digest = h, written = big_Bytes v\<rparr>)\<rparr>"
  have ne: "P_ptr this \<noteq> Suc k" "r \<noteq> fresh m6"
    using obj(2) l(3) by (simp_all add: k_def)
  have run: "Compute_st s input m = Some ((Some (h (big_Bytes v)), Some (fresh m6), None), m10)"
    using obj ne f(5) l(1) [unfolded m5_def] l(4) k6
    by (simp add: Compute_st_def get_HashFunc_def Hash_new_def Hash_Write_def Hash_Sum_def
        Hash_Reset_def Int_new_def Int_SetBytes_def Int_store_def get_P_def Int_Mod_def
        Int_Set_def Int_Bytes_def big_Mod_def hash_Write_def hash_Sum_def hash_Reset_def
        k_def [symmetric] w0_def [symmetric] inp_def [symmetric] m10_def)
  have "frame m6 (m6\<lparr>ints := (ints m6)(fresh m6 \<mapsto> v), fresh := Suc (fresh m6)\<rparr>)"
    by (simp add: frame_def)
  have fr: "frame m m10"
    using fr5 l(2) by (auto simp: frame_def m10_def m5_def k_def)
  have "ints m10 (fresh m6) = Some v" by (simp add: m10_def)
  with run fr pure show ?thesis by blast
qed


lemma New_st_ok:
  assumes pv: "package_vars m" and p: "p < fresh m" "ints m p = Some vp"
  shows "case New h vp it of
           Inl e \<Rightarrow> (\<exists>m'. New_st h p it m = Some (Inl e, m') \<and> frame m m')
         | Inr S \<Rightarrow> (\<exists>s m'. New_st h p it m = Some (Inr s, m') \<and> frame m m' \<and> holds m' s S)"
proof -
  have c: "bigOne < fresh m" "ints m bigOne = Some 1" "bigFour < fresh m"
    "ints m bigFour = Some 4" "bigThree < fresh m" "ints m bigThree = Some 3"
    using pv by (simp_all add: package_vars_def bigOne_def bigFour_def bigThree_def)
  have ne: "p \<noteq> fresh m" "bigOne \<noteq> fresh m" "bigFour \<noteq> fresh m" "bigThree \<noteq> fresh m"
    "p \<noteq> Suc (fresh m)" "bigOne \<noteq> Suc (fresh m)" "bigFour \<noteq> Suc (fresh m)"
    using p(1) c(1,3,5) by simp_all
  show ?thesis
    using p c ne
    by (simp add: New_def New_st_def Int_new_def Int_Mod_def Int_Cmp_def Int_Add_def
        Int_Div_def Int_store_def big_Mod_def big_Div_def frame_def holds_def Let_def)
qed

text \<open>A run on the small store: \<open>New\<close> puts the struct at 9, \<open>Compute\<close> the witness at 15.\<close>

lemma Compute_st_store7:
  "(case New_st sum_hash 5 1 store7 of
      Some (Inr s, m) \<Rightarrow>
        (case Compute_st s (Some [4]) m of
           Some (r, m1) \<Rightarrow>
             Some (s, r, map (ints m1) [5, 8, 11, 12, 13, 14, 15, 16], fresh m1,
                   map_option written (hashes m1 6), map_option written (hashes m1 10))
         | None \<Rightarrow> None)
    | _ \<Rightarrow> None) =
   Some (9, (Some [2], Some 15, None),
         [Some 7, Some 2, Some 4, Some 3, Some 4, Some 2, Some 2, None], 16,
         Some [9], Some [2])"
  by code_simp

section \<open>Determinism of \<open>Compute\<close>\<close>

text \<open>
  C9. \<open>Compute\<close> is deterministic. Take an instance \<open>S\<close> built by \<open>New\<close> and any two
  stores \<open>m1\<close> and \<open>m2\<close> in which the struct at \<open>s\<close> holds it and the package
  variables hold their values; the stores may differ in everything else, hash objects
  left by earlier calls included. Then \<open>Compute\<close> on the same input bytes returns, in
  both stores, the same digest and a witness of the same value, with a nil error. It
  leaves every earlier object unchanged, the struct and its integers among them, so that a
  further call in the store it leaves behind returns that digest and witness value again.
\<close>

theorem Compute_st_deterministic:
  assumes "New h p it = Inr S"
    and "package_vars m1" and "holds m1 s S"
    and "package_vars m2" and "holds m2 s S"
  shows "\<exists>d v a1 m1' a2 m2' a3 m3'.
      Compute_st s input m1 = Some ((Some d, Some a1, None), m1') \<and> ints m1' a1 = Some v \<and>
      Compute_st s input m2 = Some ((Some d, Some a2, None), m2') \<and> ints m2' a2 = Some v \<and>
      Compute_st s input m1' = Some ((Some d, Some a3, None), m3') \<and> ints m3' a3 = Some v \<and>
      frame m1 m1' \<and> holds m1' s S \<and> package_vars m1' \<and>
      Compute S input = Some (Some d, Some v, None)"
proof -
  obtain d v a1 m1' where 1:
      "Compute_st s input m1 = Some ((Some d, Some a1, None), m1')" "ints m1' a1 = Some v"
      "frame m1 m1'" "Compute S input = Some (Some d, Some v, None)"
    using Compute_st_ok [OF assms(1,2,3)] by blast
  obtain d2 v2 a2 m2' where 2:
      "Compute_st s input m2 = Some ((Some d2, Some a2, None), m2')" "ints m2' a2 = Some v2"
      "Compute S input = Some (Some d2, Some v2, None)"
    using Compute_st_ok [OF assms(1,4,5)] by blast
  have after: "package_vars m1'" "holds m1' s S"
    using package_vars_frame [OF assms(2) 1(3)] holds_frame [OF assms(3) 1(3)] by simp_all
  obtain d3 v3 a3 m3' where 3:
      "Compute_st s input m1' = Some ((Some d3, Some a3, None), m3')" "ints m3' a3 = Some v3"
      "Compute S input = Some (Some d3, Some v3, None)"
    using Compute_st_ok [OF assms(1) after] by blast
  from 1(4) 2(3) 3(3) have "d2 = d" "v2 = v" "d3 = d" "v3 = v" by simp_all
  with 1 2 3 after show ?thesis by blast
qed

theorem Compute_st_deterministic_witness:
  "\<exists>s m a1 m1 a2 m2.
     New_st sum_hash 5 1 store7 = Some (Inr s, m) \<and>
     Compute_st s (Some [4]) m = Some ((Some [2], Some a1, None), m1) \<and> ints m1 a1 = Some 2 \<and>
     Compute_st s (Some [4]) m1 = Some ((Some [2], Some a2, None), m2) \<and> ints m2 a2 = Some 2"
proof -
  have pv: "package_vars store7"
    by (simp add: package_vars_def store7_def bigZero_def bigOne_def bigTwo_def bigFour_def
        bigThree_def)
  have p: "5 < fresh store7" "ints store7 5 = Some 7"
    by (simp_all add: store7_def)
  obtain s m where new: "New_st sum_hash 5 1 store7 = Some (Inr s, m)" "frame store7 m"
      "holds m s sloth7"
    using New_st_ok [OF pv p, of sum_hash 1] by (auto simp: New_sloth7)
  have pure: "Compute sloth7 (Some [4]) = Some (Some [2], Some 2, None)" by code_simp
  show ?thesis
    using Compute_st_deterministic [OF New_sloth7 package_vars_frame [OF pv new(2)] new(3)
        package_vars_frame [OF pv new(2)] new(3), of "Some [4]"] new(1) pure
    by auto
qed

section \<open>The checks of \<open>Verify\<close>\<close>

text \<open>
  C6. \<open>Verify\<close> returns \<open>false\<close> with an error, before its loop has made any call of
  \<open>TauInverse\<close>, in this order: a nil input, a nil digest, a nil witness (usage
  errors); then a witness that is negative or at least \<open>p\<close>; then a digest that differs
  from the hash of the witness's bytes. This holds for every instance.
\<close>

theorem Verify_rejects_in_order:
  "(input = None \<longrightarrow> rejects_before_loop s input hash witness ErrNilInput) \<and>
   (input \<noteq> None \<and> hash = None \<longrightarrow> rejects_before_loop s input hash witness ErrNilHash) \<and>
   (input \<noteq> None \<and> hash \<noteq> None \<and> witness = None \<longrightarrow>
      rejects_before_loop s input hash witness ErrNilWitness) \<and>
   (input \<noteq> None \<and> hash \<noteq> None \<and> (\<exists>w. witness = Some w \<and> (w < 0 \<or> P s \<le> w)) \<longrightarrow>
      rejects_before_loop s input hash witness ErrWitnessRange) \<and>
   (input \<noteq> None \<and>
    (\<exists>w d. witness = Some w \<and> hash = Some d \<and> 0 \<le> w \<and> w < P s \<and>
           d \<noteq> HashFunc s (big_Bytes w)) \<longrightarrow>
      rejects_before_loop s input hash witness ErrHashMismatch)"
  by (auto simp: rejects_before_loop_def Verify_def Verify_run_def new_hasher_def
      hash_Write_def hash_Sum_def Let_def split: option.splits)

theorem Verify_rejects_in_order_witness:
  "rejects_before_loop sloth7 None None None ErrNilInput \<and>
   rejects_before_loop sloth7 (Some [4]) None None ErrNilHash \<and>
   rejects_before_loop sloth7 (Some [4]) (Some [2]) None ErrNilWitness \<and>
   rejects_before_loop sloth7 (Some [4]) (Some [2]) (Some 7) ErrWitnessRange \<and>
   rejects_before_loop sloth7 (Some [4]) (Some [2]) (Some (- 1)) ErrWitnessRange \<and>
   rejects_before_loop sloth7 (Some [4]) (Some [3]) (Some 2) ErrHashMismatch"
proof -
  have h: "HashFunc sloth7 (big_Bytes 2) = [2]" by code_simp
  have p: "P sloth7 = 7" by (simp add: sloth7_def)
  show ?thesis
    using Verify_rejects_in_order [where s = sloth7 and input = None and hash = None and witness = None]
      Verify_rejects_in_order [where s = sloth7 and input = "Some [4]" and hash = None and witness = None]
      Verify_rejects_in_order [where s = sloth7 and input = "Some [4]" and hash = "Some [2]" and witness = None]
      Verify_rejects_in_order [where s = sloth7 and input = "Some [4]" and hash = "Some [2]" and witness = "Some 7"]
      Verify_rejects_in_order [where s = sloth7 and input = "Some [4]" and hash = "Some [2]" and witness = "Some (- 1)"]
      Verify_rejects_in_order [where s = sloth7 and input = "Some [4]" and hash = "Some [3]" and witness = "Some 2"] h p
    by simp
qed

section \<open>The prime generator\<close>

text \<open>A failure of the random source is returned at once, wrapped.\<close>

lemma GenerateSlothPrime_error:
  "rand_Prime k bits = Inl err \<Longrightarrow>
   GenerateSlothPrime rand_Prime bits k = Some (Inl (ErrCandidatePrime err))"
  by (simp add: GenerateSlothPrime.simps)

lemma GenerateSlothPrime_rand_29_31:
  "GenerateSlothPrime rand_29_31 5 0 = Some (Inr 31)"
  by (simp add: GenerateSlothPrime.simps [of rand_29_31 5 0]
      GenerateSlothPrime.simps [of rand_29_31 5 "Suc 0"] rand_29_31_def)

lemma rand_29_31_primes:
  "\<forall>j q. rand_29_31 j 5 = Inr q \<longrightarrow> is_prime q \<and> big_BitLen q = 5"
proof -
  have "is_prime 29" "is_prime 31" "big_BitLen 29 = 5" "big_BitLen 31 = 5"
    by code_simp+
  then show ?thesis by (auto simp: rand_29_31_def split: if_splits)
qed

text \<open>
  C10. If every candidate that the random source returns for the requested length is a
  prime of that bit length, then every value that \<open>GenerateSlothPrime\<close> returns without
  error is a prime of that bit length and is 3 modulo 4.
\<close>

theorem GenerateSlothPrime_result:
  assumes result: "GenerateSlothPrime rand_Prime bits k = Some (Inr p)"
    and source: "\<forall>j q. rand_Prime j bits = Inr q \<longrightarrow> is_prime q \<and> big_BitLen q = bits"
  shows "is_prime p \<and> big_BitLen p = bits \<and> p mod 4 = 3"
proof -
  let ?good = "\<lambda>(rnd :: nat \<Rightarrow> int \<Rightarrow> string + int) (b :: int) (k :: nat) (r :: error + int). \<forall>p. r = Inr p \<longrightarrow>
      (\<forall>j q. rnd j b = Inr q \<longrightarrow> is_prime q \<and> big_BitLen q = b) \<longrightarrow>
      is_prime p \<and> big_BitLen p = b \<and> p mod 4 = 3"
  have "?good rand_Prime bits k (Inr p)"
  proof (rule GenerateSlothPrime.raw_induct [where P = ?good, OF _ result])
    fix gen rnd b k r
    assume IH: "\<And>rnd b k r. gen rnd b k = Some r \<Longrightarrow> ?good rnd b k r"
      and step: "(case rnd k b of
          Inl err \<Rightarrow> Some (Inl (ErrCandidatePrime err))
        | Inr prime \<Rightarrow> if prime mod 4 = 3 then Some (Inr prime) else gen rnd b (Suc k)) = Some r"
    show "?good rnd b k r"
    proof (cases "rnd k b")
      case (Inl err)
      with step show ?thesis by auto
    next
      case (Inr prime)
      show ?thesis
      proof (cases "prime mod 4 = 3")
        case True
        with Inr step show ?thesis by auto
      next
        case False
        with Inr step have "gen rnd b (Suc k) = Some r" by simp
        then show ?thesis by (rule IH)
      qed
    qed
  qed
  with source show ?thesis by blast
qed

theorem GenerateSlothPrime_result_witness:
  "GenerateSlothPrime rand_29_31 5 0 = Some (Inr 31) \<and>
   is_prime 31 \<and> big_BitLen 31 = 5 \<and> (31 :: int) mod 4 = 3"
  using GenerateSlothPrime_result [OF GenerateSlothPrime_rand_29_31 rand_29_31_primes]
    GenerateSlothPrime_rand_29_31 rand_29_31_primes
  by simp

section \<open>The neighbour swap\<close>

text \<open>Away from zero, \<open>sigma\<close> undoes itself.\<close>

lemma sigma_involution_nonzero:
  assumes "New h p it = Inr s" and "1 \<le> x" and "x < p"
  shows "(sigma s x \<bind> sigma s) = Some x"
proof -
  note f = New_fields [OF assms(1)]
  show ?thesis
  proof (cases "even x")
    case True
    then have "(x - 1) mod p = x - 1" "odd (x - 1)" using assms(2,3) by simp_all
    then show ?thesis using True assms(2,3) by (simp add: sigma_New [OF assms(1)])
  next
    case False
    then have "x \<noteq> p - 1" using f(6) by auto
    then have "(x + 1) mod p = x + 1" "even (x + 1)" using False assms(2,3) by simp_all
    then show ?thesis using False assms(2,3) by (simp add: sigma_New [OF assms(1)])
  qed
qed

text \<open>
  C4. The claim is that \<open>sigma (sigma x) = x\<close> for every \<open>x\<close> from 0 to \<open>p - 1\<close>, and
  that \<open>sigmaInverse\<close> is \<open>sigma\<close>. On every instance built by \<open>New\<close> the code maps 0
  to \<open>p - 1\<close>, which is even, and \<open>p - 1\<close> to \<open>p - 2\<close>: two applications take 0 to
  \<open>p - 2\<close>, not to 0.
\<close>

theorem sigma_twice_at_zero:
  assumes "New h p it = Inr s"
  shows "sigma s 0 = Some (p - 1) \<and> sigma s (p - 1) = Some (p - 2) \<and>
         sigmaInverse s (p - 1) = Some (p - 2) \<and> p - 2 \<noteq> 0"
proof -
  note f = New_fields [OF assms]
  have m1: "(- 1) mod p = p - 1"
    using f(5) by (simp add: zmod_minus1)
  have m2: "(p - 1 - 1) mod p = p - 1 - 1"
    using f(5) by (intro mod_pos_pos_trivial) linarith+
  have "sigma s 0 = Some ((- 1) mod p)"
    by (simp add: sigma_New [OF assms])
  then have a: "sigma s 0 = Some (p - 1)" by (simp only: m1)
  have "even (p - 1)" using f(6) by simp
  then have "sigma s (p - 1) = Some ((p - 1 - 1) mod p)"
    by (simp only: sigma_New [OF assms] if_True)
  then have b: "sigma s (p - 1) = Some (p - 1 - 1)" by (simp only: m2)
  from a b f(5) show ?thesis by (simp add: sigmaInverse_def)
qed

theorem sigma_twice_at_zero_witness:
  "New sum_hash 7 1 = Inr sloth7 \<and> sigma sloth7 0 = Some 6 \<and> sigma sloth7 6 = Some 5 \<and>
   sigmaInverse sloth7 6 = Some 5"
  using sigma_twice_at_zero [OF New_sloth7] New_sloth7 by simp

section \<open>The inverse square-root step\<close>

text \<open>
  C3. The claim is that \<open>rhoInverse y\<close> is \<open>(- y\<^sup>2) mod p\<close> for an odd \<open>y\<close>. The code
  returns \<open>y\<^sup>2 mod p\<close> for every \<open>y\<close> (lemma \<open>rhoInverse_New\<close>): for \<open>p = 7\<close> and
  \<open>y = 1\<close> it returns 1, where the claim asks for 6.
\<close>

theorem rhoInverse_odd_at_1:
  "New sum_hash 7 1 = Inr sloth7 \<and> big_Bit0 1 = 1 \<and>
   rhoInverse sloth7 1 = Some 1 \<and> (- (1::int)\<^sup>2) mod P sloth7 = 6"
proof -
  have "rhoInverse sloth7 1 = Some 1" "P sloth7 = 7" "big_Bit0 1 = 1"
    by code_simp+
  then show ?thesis using New_sloth7 by simp
qed

section \<open>The inverse property\<close>

text \<open>
  C1. The claim is that \<open>TauInverse (Tau x) = x\<close> for every \<open>x\<close> from 0 to \<open>p - 1\<close>. For
  \<open>p = 7\<close> and \<open>x = 4\<close> the code computes \<open>Tau 4 = 2\<close> (\<open>sigma\<close> gives 3, not a square
  modulo 7, so \<open>rho\<close> takes the even root 2 of 4) and \<open>TauInverse 2 = 3\<close>.
\<close>

theorem Tau_TauInverse_at_4:
  "New sum_hash 7 1 = Inr sloth7 \<and> (0::int) \<le> 4 \<and> (4::int) < P sloth7 \<and>
   Tau sloth7 4 = Some 2 \<and> TauInverse sloth7 2 = Some 3 \<and>
   (Tau sloth7 4 \<bind> TauInverse sloth7) \<noteq> Some 4"
proof -
  have "Tau sloth7 4 = Some 2" "TauInverse sloth7 2 = Some 3" "P sloth7 = 7"
    by code_simp+
  then show ?thesis using New_sloth7 by simp
qed

section \<open>The round trip\<close>

text \<open>
  C2. The claim is that \<open>Verify\<close> accepts what \<open>Compute\<close> returns. For \<open>p = 7\<close> and one
  iteration, whatever the hash, an input whose digest is 4 modulo 7 gets the witness 2 from
  \<open>Compute\<close>, and \<open>Verify\<close> then returns \<open>false\<close> with the error of a failed
  verification.
\<close>

theorem Compute_Verify_roundtrip_fails:
  assumes "big_SetBytes (h input) mod 7 = 4"
  shows "\<exists>s. New h 7 1 = Inr s \<and>
           Compute s (Some input) = Some (Some (h [2]), Some 2, None) \<and>
           Verify s (Some input) (Some (h [2])) (Some 2) = Some (False, Some ErrVerificationFailed)"
proof -
  define s where "s = \<lparr>P = 7, Iterations = 1, HashFunc = h, sqrtExp = 2\<rparr>"
  have new: "New h 7 1 = Inr s"
    by (simp add: New_def s_def ProbablyPrime_def) code_simp
  note f = New_fields [OF new]
  have bytes: "big_Bytes 2 = [2]" by code_simp
  have "jacobi_loop 3 7 1 = - 1" by code_simp
  then have "rho s 3 = Some 2"
    by (simp add: rho_def big_Jacobi_def big_Mod_def big_Exp_def big_Bit0_def s_def)
  then have tau: "Tau s 4 = Some 2"
    by (simp add: Tau_def sigma_New [OF new])
  have tauinv: "TauInverse s 2 = Some 3"
    by (simp add: TauInverse_New [OF new])
  have loop: "tau_loop s 0 4 = Some 2"
    using tau f(2)
    by (simp add: tau_loop.simps [of s 0] tau_loop.simps [of s 1])
  have invloop: "tauInverse_loop s 0 2 0 = Some (3, 1)"
    using tauinv f(2)
    by (simp add: tauInverse_loop.simps [of s 0] tauInverse_loop.simps [of s 1])
  have "Compute s (Some input) = Some (Some (h [2]), Some 2, None)"
    using assms f(1,3) loop bytes
    by (simp add: Compute_def new_hasher_def hash_Write_def hash_Sum_def hash_Reset_def
        big_Mod_def Let_def)
  moreover have "Verify s (Some input) (Some (h [2])) (Some 2) =
      Some (False, Some ErrVerificationFailed)"
    using assms f(1,3) invloop bytes
    by (simp add: Verify_def Verify_run_def new_hasher_def hash_Write_def hash_Sum_def
        hash_Reset_def big_Mod_def Let_def)
  ultimately show ?thesis using new by blast
qed

theorem Compute_Verify_roundtrip_fails_witness:
  "big_SetBytes (sum_hash [4]) mod 7 = 4 \<and> New sum_hash 7 1 = Inr sloth7 \<and>
   Compute sloth7 (Some [4]) = Some (Some [2], Some 2, None) \<and>
   Verify sloth7 (Some [4]) (Some [2]) (Some 2) = Some (False, Some ErrVerificationFailed)"
proof -
  have h: "big_SetBytes (sum_hash [4]) mod 7 = 4" by code_simp
  have d: "sum_hash [2] = [2]" by code_simp
  show ?thesis
    using Compute_Verify_roundtrip_fails [where h = sum_hash and input = "[4]"] h d New_sloth7 by simp
qed

end
